theory Spec2Isabelle
  imports Main "HOL-Library.Word" "HOL-Library.Sublist"
begin

section \<open>Strings and filename sanitisation\<close>

text \<open>
  A Python \<open>str\<close> is a sequence of Unicode code points; it is modelled as a list of
  natural numbers, one per code point. \<open>lit\<close> writes a literal of the source: each
  character of an Isabelle string stands for the code point of the same number.
\<close>

type_synonym str = "nat list"

definition cp :: "char \<Rightarrow> nat" where
  "cp c = of_char c"

definition lit :: "string \<Rightarrow> str" where
  "lit s = map cp s"

text \<open>
  The character classes of the \<open>re\<close> module and the case mapping of \<open>str.lower\<close> come
  from the Unicode database of the Python runtime, which is not part of the program.
  For the code points U+0000 to U+00FF the entries are written out below. For the code
  points above them the database is a parameter:
  \<^item> \<open>alnum c\<close>: \<open>str.isalnum\<close> holds of the character \<open>c\<close>;
  \<^item> \<open>uppercase c\<close>: \<open>str.isupper\<close> holds of the character \<open>c\<close>;
  \<^item> \<open>lower_at s i\<close>: the code points that \<open>s.lower()\<close> puts in the place of the
    character at index \<open>i\<close> of \<open>s\<close>. The result can be longer than one code point
    (U+0130) and can depend on the neighbours (the capital sigma U+03A3).
\<close>

record unicode =
  alnum :: "nat \<Rightarrow> bool"
  uppercase :: "nat \<Rightarrow> bool"
  lower_at :: "str \<Rightarrow> nat \<Rightarrow> str"

text \<open>\<open>\w\<close>: alphanumeric code points and the underscore.\<close>

definition is_word :: "unicode \<Rightarrow> nat \<Rightarrow> bool" where
  "is_word u n \<longleftrightarrow>
     (if n < 256 then
        (48 \<le> n \<and> n \<le> 57) \<or> (65 \<le> n \<and> n \<le> 90) \<or> n = 95 \<or> (97 \<le> n \<and> n \<le> 122) \<or>
        n = 170 \<or> n = 178 \<or> n = 179 \<or> n = 181 \<or> n = 185 \<or> n = 186 \<or>
        (188 \<le> n \<and> n \<le> 190) \<or> (192 \<le> n \<and> n \<le> 214) \<or> (216 \<le> n \<and> n \<le> 246) \<or>
        (248 \<le> n \<and> n \<le> 255)
      else alnum u n)"

text \<open>\<open>\s\<close>: tab, line feed, vertical tab, form feed, carriage return, the four
  separators U+001C to U+001F, the space, U+0085 and the no-break space; above U+00FF
  the Ogham space mark, the spaces U+2000 to U+200A, the line and paragraph separators,
  the narrow no-break space, the medium mathematical space and the ideographic space.\<close>

definition is_space :: "nat \<Rightarrow> bool" where
  "is_space n \<longleftrightarrow>
     (9 \<le> n \<and> n \<le> 13) \<or> (28 \<le> n \<and> n \<le> 32) \<or> n = 133 \<or> n = 160 \<or>
     n = 0x1680 \<or> (0x2000 \<le> n \<and> n \<le> 0x200A) \<or> n = 0x2028 \<or> n = 0x2029 \<or>
     n = 0x202F \<or> n = 0x205F \<or> n = 0x3000"

text \<open>The capital letters of U+0000 to U+00FF: \<open>A\<close> to \<open>Z\<close> and U+00C0 to U+00DE
  without the multiplication sign U+00D7.\<close>

definition capital :: "nat \<Rightarrow> bool" where
  "capital n \<longleftrightarrow> (65 \<le> n \<and> n \<le> 90) \<or> (192 \<le> n \<and> n \<le> 222 \<and> n \<noteq> 215)"

text \<open>\<open>str.isupper\<close> on one character.\<close>

definition is_upper :: "unicode \<Rightarrow> nat \<Rightarrow> bool" where
  "is_upper u n \<longleftrightarrow> (if n < 256 then capital n else uppercase u n)"

text \<open>\<open>str.lower\<close> on a character of U+0000 to U+00FF: every capital letter has its
  small letter 32 places up, whatever stands around it.\<close>

definition lower_char :: "nat \<Rightarrow> nat" where
  "lower_char n = (if capital n then n + 32 else n)"

text \<open>\<open>s.lower()\<close>: every character is replaced by its lowercase, in place.\<close>

definition lower :: "unicode \<Rightarrow> str \<Rightarrow> str" where
  "lower u s =
     concat (map (\<lambda>i. if s ! i < 256 then [lower_char (s ! i)] else lower_at u s i)
       [0..<length s])"

text \<open>\<open>name.replace(' ', '_')\<close>: every space becomes an underscore.\<close>

definition replace_space :: "str \<Rightarrow> str" where
  "replace_space s = map (\<lambda>c. if c = cp CHR '' '' then cp CHR ''_'' else c) s"

text \<open>The character class \<open>[^\w\s.-]\<close> matches what \<open>kept\<close> rejects;
  \<open>re.sub\<close> with the empty replacement deletes every match.\<close>

definition kept :: "unicode \<Rightarrow> nat \<Rightarrow> bool" where
  "kept u c \<longleftrightarrow> is_word u c \<or> is_space c \<or> c = cp CHR ''.'' \<or> c = cp CHR ''-''"

definition re_sub_invalid :: "unicode \<Rightarrow> str \<Rightarrow> str" where
  "re_sub_invalid u s = filter (kept u) s"

text \<open>
  \<^verbatim>\<open>
  def clean_filename(name):
      return re.sub(r'[^\w\s.-]', '', name.replace(' ', '_').lower())[:50]
  \<close>
\<close>

definition clean_filename :: "unicode \<Rightarrow> str \<Rightarrow> str" where
  "clean_filename u name = take 50 (re_sub_invalid u (lower u (replace_space name)))"

text \<open>
  What the claims about case need from the database: \<open>lower\<close> leaves its own results
  alone. Whatever it puts in the place of a character above U+00FF is either a
  character of U+0000 to U+00FF that is neither a capital letter nor the space, or a
  character that \<open>lower\<close> maps to itself in every string.
\<close>

definition settled :: "unicode \<Rightarrow> nat \<Rightarrow> bool" where
  "settled u d \<longleftrightarrow>
     (d < 256 \<and> \<not> capital d \<and> d \<noteq> cp CHR '' '') \<or>
     (256 \<le> d \<and> (\<forall>t j. j < length t \<and> t ! j = d \<longrightarrow> lower_at u t j = [d]))"

definition lower_stable :: "unicode \<Rightarrow> bool" where
  "lower_stable u \<longleftrightarrow>
     (\<forall>s i. i < length s \<and> 256 \<le> s ! i \<longrightarrow> (\<forall>d\<in>set (lower_at u s i). settled u d))"

text \<open>
  An excerpt of the database of Python 3: the letters U+0100 and U+0101 (A with macron,
  capital and small), the capital I with dot above U+0130, whose lowercase is \<open>i\<close>
  followed by the combining dot U+0307, and the double-struck capital C U+2102, which
  is uppercase and has no lowercase. The excerpt treats every other code point above
  U+00FF as a caseless symbol.
\<close>

definition ucd_excerpt :: unicode where
  "ucd_excerpt =
     \<lparr>alnum = (\<lambda>c. c = 0x100 \<or> c = 0x101 \<or> c = 0x130 \<or> c = 0x2102),
      uppercase = (\<lambda>c. c = 0x100 \<or> c = 0x130 \<or> c = 0x2102),
      lower_at = (\<lambda>s i. if s ! i = 0x100 then [0x101]
                         else if s ! i = 0x130 then [0x69, 0x307] else [s ! i])\<rparr>"

section \<open>The world around \<open>download_image\<close>\<close>

text \<open>
  The network, the file system and the Unicode database are outside the program. They
  are an environment that the code questions in order: the \<open>n\<close>-th call of \<open>session.get\<close> (counted
  from 0 over the whole run) either raises or returns a response, and opening a path
  for writing during that attempt either raises or succeeds. A response carries its
  status code and the chunks that \<open>iter_content(1024)\<close> yields; when
  \<open>stream_error\<close> is set, an exception is raised inside the \<open>with\<close> block (by the
  iterator or by \<open>f.write\<close>) once the listed chunks have been written.
\<close>

type_synonym bytes = "8 word list"

record response =
  status_code :: int
  chunks :: "bytes list"
  stream_error :: "str option"

datatype get_result = Raises str | Returns response

record env =
  http_get :: "nat \<Rightarrow> str \<Rightarrow> get_result"
  open_wb :: "nat \<Rightarrow> str \<Rightarrow> str option"
  ucd :: unicode

text \<open>The records of the log file, one constructor per \<open>logging\<close> call of the source.\<close>

datatype log_entry =
    Info_downloaded str
  | Warning_failed str int
  | Error_downloading str str
  | Info_completed int str

text \<open>
  What the program changes: the files on disk, the requests it has sent (the URL of
  every \<open>session.get\<close>, in order), the number of \<open>time.sleep(REQUEST_DELAY)\<close> calls,
  the log and the lines printed.
\<close>

record world =
  files :: "str \<rightharpoonup> bytes"
  fetched :: "str list"
  sleeps :: nat
  log :: "log_entry list"
  stdout :: "str list"

definition DOWNLOAD_FOLDER :: str where
  "DOWNLOAD_FOLDER = lit ''lummi_images''"

definition RETRY_ATTEMPTS :: nat where
  "RETRY_ATTEMPTS = 3"

definition record_request :: "str \<Rightarrow> world \<Rightarrow> world" where
  "record_request url w = w\<lparr>fetched := fetched w @ [url]\<rparr>"

definition logging :: "log_entry \<Rightarrow> world \<Rightarrow> world" where
  "logging entry w = w\<lparr>log := log w @ [entry]\<rparr>"

definition sleep_request_delay :: "world \<Rightarrow> world" where
  "sleep_request_delay w = w\<lparr>sleeps := Suc (sleeps w)\<rparr>"


text \<open>\<open>os.path.join\<close> of two components (POSIX): an absolute second component
  replaces the first, otherwise one separator stands between them.\<close>

definition path_join :: "str \<Rightarrow> str \<Rightarrow> str" where
  "path_join a b =
     (if b \<noteq> [] \<and> hd b = cp CHR ''/'' then b
      else if a = [] \<or> last a = cp CHR ''/'' then a @ b
      else a @ lit ''/'' @ b)"

text \<open>The \<open>for chunk in ...: f.write(chunk)\<close> loop on a file that \<open>open(..., 'wb')\<close>
  has just created or truncated.\<close>

definition write_chunks :: "bytes list \<Rightarrow> bytes" where
  "write_chunks cs = foldl (\<lambda>content chunk. content @ chunk) [] cs"

text \<open>
  One pass through the body of the \<open>for attempt\<close> loop. The result is \<open>True\<close> when
  the pass leaves the function by \<open>return True\<close>, and \<open>False\<close> when it reaches the end
  of the body, past \<open>time.sleep(REQUEST_DELAY)\<close>. Every exception raised inside the
  \<open>try\<close> is caught by \<open>except Exception\<close>.
\<close>

definition attempt :: "env \<Rightarrow> str \<Rightarrow> str \<Rightarrow> str \<Rightarrow> world \<Rightarrow> bool \<times> world" where
  "attempt e url folder filename w =
     (let n = length (fetched w); w1 = record_request url w in
      case http_get e n url of
        Raises msg \<Rightarrow> (False, sleep_request_delay (logging (Error_downloading url msg) w1))
      | Returns r \<Rightarrow>
          if status_code r = 200 then
            (let file_path = path_join folder filename in
             case open_wb e n file_path of
               Some msg \<Rightarrow>
                 (False, sleep_request_delay (logging (Error_downloading url msg) w1))
             | None \<Rightarrow>
                 (let w2 = w1\<lparr>files := (files w1)(file_path \<mapsto> write_chunks (chunks r))\<rparr> in
                  case stream_error r of
                    Some msg \<Rightarrow>
                      (False, sleep_request_delay (logging (Error_downloading url msg) w2))
                  | None \<Rightarrow> (True, logging (Info_downloaded file_path) w2)))
          else
            (False, sleep_request_delay (logging (Warning_failed url (status_code r)) w1)))"

text \<open>
  \<^verbatim>\<open>
  def download_image(url, folder, filename, session):
      for attempt in range(RETRY_ATTEMPTS):
          try: ... return True ...
          except Exception as e: ...
          time.sleep(REQUEST_DELAY)
      return False
  \<close>
  The loop is written for any bound; the source fixes the bound to \<open>RETRY_ATTEMPTS\<close>.
\<close>

fun download_image_with ::
  "nat \<Rightarrow> env \<Rightarrow> str \<Rightarrow> str \<Rightarrow> str \<Rightarrow> world \<Rightarrow> bool \<times> world" where
  "download_image_with 0 e url folder filename w = (False, w)"
| "download_image_with (Suc k) e url folder filename w =
     (let (returned, w') = attempt e url folder filename w in
      if returned then (True, w') else download_image_with k e url folder filename w')"

definition download_image :: "env \<Rightarrow> str \<Rightarrow> str \<Rightarrow> str \<Rightarrow> world \<Rightarrow> bool \<times> world" where
  "download_image = download_image_with RETRY_ATTEMPTS"

text \<open>An attempt succeeds when the request returns status 200 and nothing raises while
  the body is written; in every other case it fails.\<close>

definition attempt_succeeds :: "env \<Rightarrow> nat \<Rightarrow> str \<Rightarrow> str \<Rightarrow> bool" where
  "attempt_succeeds e n url file_path =
     (case http_get e n url of
        Raises msg \<Rightarrow> False
      | Returns r \<Rightarrow>
          status_code r = 200 \<and> open_wb e n file_path = None \<and> stream_error r = None)"

text \<open>The two failure classes of the specification: a response whose status is not
  200, and a request that raises (a timeout, a refused connection).\<close>

definition bad_status :: "env \<Rightarrow> nat \<Rightarrow> str \<Rightarrow> bool" where
  "bad_status e n url = (case http_get e n url of Raises msg \<Rightarrow> False | Returns r \<Rightarrow> status_code r \<noteq> 200)"

definition transport_failure :: "env \<Rightarrow> nat \<Rightarrow> str \<Rightarrow> bool" where
  "transport_failure e n url = (case http_get e n url of Raises msg \<Rightarrow> True | Returns r \<Rightarrow> False)"

definition body :: "response \<Rightarrow> bytes" where
  "body r = concat (chunks r)"

text \<open>An attempt opens the destination when the request returns status 200 and
  \<open>open(file_path, 'wb')\<close> does not raise: from then on the file exists.\<close>

definition opens_destination :: "env \<Rightarrow> nat \<Rightarrow> str \<Rightarrow> str \<Rightarrow> bool" where
  "opens_destination e n url file_path =
     (case http_get e n url of
        Raises msg \<Rightarrow> False
      | Returns r \<Rightarrow> status_code r = 200 \<and> open_wb e n file_path = None)"

section \<open>The download loop of \<open>main\<close>\<close>

text \<open>An \<open>img\<close> tag is the dictionary of its attributes; \<open>img.get(k)\<close> is \<open>None\<close> for
  an absent attribute.\<close>

type_synonym img = "str \<rightharpoonup> str"

text \<open>\<open>v or d\<close> for an optional str: \<open>None\<close> and the empty str are false.\<close>

definition or_else :: "str option \<Rightarrow> str \<Rightarrow> str" where
  "or_else v d = (case v of None \<Rightarrow> d | Some s \<Rightarrow> if s = [] then d else s)"

text \<open>\<open>str\<close> of an integer, as an f-str renders it.\<close>

fun digits :: "nat \<Rightarrow> str" where
  "digits n = (if n < 10 then [48 + n] else digits (n div 10) @ [48 + n mod 10])"

declare digits.simps [simp del]

definition str_int :: "int \<Rightarrow> str" where
  "str_int i = (if i < 0 then cp CHR ''-'' # digits (nat (- i)) else digits (nat i))"

text \<open>The filter of the loop, \<open>not src or 'http' not in src\<close>, negated: the tags that
  are not skipped.\<close>

definition valid_src :: "img \<Rightarrow> bool" where
  "valid_src img =
     (case img (lit ''src'') of None \<Rightarrow> False | Some src \<Rightarrow> src \<noteq> [] \<and> sublist (lit ''http'') src)"

text \<open>\<open>img.get('data-fullsrc') or src\<close>, for a tag that has a \<open>src\<close>.\<close>

definition full_src :: "img \<Rightarrow> str" where
  "full_src img =
     (case img (lit ''src'') of None \<Rightarrow> [] | Some src \<Rightarrow> or_else (img (lit ''data-fullsrc'')) src)"

text \<open>
  \<^verbatim>\<open>
  for img in tqdm(img_tags, desc="Downloading images"):
      if downloaded >= max_images: break
      src = img.get('src')
      if not src or 'http' not in src: continue
      full_src = img.get('data-fullsrc') or src
      title = img.get('alt') or f"image_{downloaded}"
      filename = clean_filename(f"{title}.jpg")
      if download_image(full_src, DOWNLOAD_FOLDER, filename, session):
          downloaded += 1
  \<close>
  \<open>max_images\<close> is whatever integer the user typed.
\<close>

fun download_loop :: "env \<Rightarrow> img list \<Rightarrow> int \<Rightarrow> int \<Rightarrow> world \<Rightarrow> int \<times> world" where
  "download_loop e [] max_images downloaded w = (downloaded, w)"
| "download_loop e (img # rest) max_images downloaded w =
     (if downloaded \<ge> max_images then (downloaded, w)
      else case img (lit ''src'') of
        None \<Rightarrow> download_loop e rest max_images downloaded w
      | Some src \<Rightarrow>
          if src = [] \<or> \<not> sublist (lit ''http'') src
          then download_loop e rest max_images downloaded w
          else
            (let full_src = or_else (img (lit ''data-fullsrc'')) src;
                 title = or_else (img (lit ''alt'')) (lit ''image_'' @ str_int downloaded);
                 filename = clean_filename (ucd e) (title @ lit ''.jpg'');
                 (ok, w') = download_image e full_src DOWNLOAD_FOLDER filename w
             in if ok then download_loop e rest max_images (downloaded + 1) w'
                else download_loop e rest max_images downloaded w'))"




text \<open>
  What a run of the loop leaves behind, for the claims about it. A successful call of
  \<open>download_image\<close> writes one \<open>Downloaded:\<close> record to the log, and nothing else
  writes one: the number of these records is the number of successful downloads.
\<close>

fun is_download_record :: "log_entry \<Rightarrow> bool" where
  "is_download_record (Info_downloaded file_path) = True"
| "is_download_record entry = False"

definition downloads_logged :: "world \<Rightarrow> nat" where
  "downloads_logged w = length (filter is_download_record (log w))"





section \<open>The scroll loop of \<open>main\<close>\<close>

text \<open>
  \<^verbatim>\<open>
  last_height = driver.execute_script("return document.body.scrollHeight")
  while True:
      driver.execute_script("window.scrollTo(0, document.body.scrollHeight);")
      time.sleep(SCROLL_PAUSE)
      new_height = driver.execute_script("return document.body.scrollHeight")
      if new_height == last_height:
          break
      last_height = new_height
  \<close>
  The browser is the sequence of heights it reports: \<open>heights i\<close> is the value of the
  \<open>i\<close>-th read (read 0 is the one before the loop). The loop has no bound, so it is a
  partial function: \<open>None\<close> is a run that never leaves the loop. Its result is the
  number of passes through the body, each one scroll, one pause and one read.
\<close>

partial_function (option) scroll_loop :: "(nat \<Rightarrow> int) \<Rightarrow> int \<Rightarrow> nat \<Rightarrow> nat option" where
  "scroll_loop heights last_height cycles =
     (let new_height = heights (Suc cycles) in
      if new_height = last_height then Some (Suc cycles)
      else scroll_loop heights new_height (Suc cycles))"

declare scroll_loop.simps [code]

definition scroller :: "(nat \<Rightarrow> int) \<Rightarrow> nat option" where
  "scroller heights = scroll_loop heights (heights 0) 0"

text \<open>A height sequence becomes constant after \<open>n\<close> reads when every read from the
  \<open>n\<close>-th on returns the same value.\<close>

definition becomes_constant_after :: "(nat \<Rightarrow> int) \<Rightarrow> nat \<Rightarrow> bool" where
  "becomes_constant_after heights n \<longleftrightarrow> 0 < n \<and> (\<forall>i\<ge>n. heights i = heights (n - 1))"

section \<open>Sample environments\<close>

definition fresh :: world where
  "fresh = \<lparr>files = Map.empty, fetched = [], sleeps = 0, log = [], stdout = []\<rparr>"

text \<open>A server that answers 500, 500 and then 200 with a three-byte body in two chunks.\<close>

definition server_500_500_200 :: env where
  "server_500_500_200 =
     \<lparr>http_get = (\<lambda>n url.
         if n < 2 then Returns \<lparr>status_code = 500, chunks = [[0x6F, 0x6F]], stream_error = None\<rparr>
         else Returns \<lparr>status_code = 200, chunks = [[0xFF, 0xD8], [0xFF]], stream_error = None\<rparr>),
       open_wb = (\<lambda>n path. None), ucd = ucd_excerpt\<rparr>"

text \<open>A server whose first answer is 200 with a body that breaks after one chunk, and
  that times out afterwards.\<close>

definition server_broken_stream :: env where
  "server_broken_stream =
     \<lparr>http_get = (\<lambda>n url.
         if n = 0 then Returns \<lparr>status_code = 200, chunks = [[0xFF, 0xD8]],
                                stream_error = Some (lit ''Connection broken'')\<rparr>
         else Raises (lit ''Read timed out'')),
       open_wb = (\<lambda>n path. None), ucd = ucd_excerpt\<rparr>"

text \<open>A server that never answers, one that always answers 404, and one that always
  answers 200 with a one-byte body.\<close>

definition server_timeout :: env where
  "server_timeout =
     \<lparr>http_get = (\<lambda>n url. Raises (lit ''Read timed out'')),
       open_wb = (\<lambda>n path. None), ucd = ucd_excerpt\<rparr>"

definition server_404 :: env where
  "server_404 =
     \<lparr>http_get = (\<lambda>n url. Returns \<lparr>status_code = 404, chunks = [], stream_error = None\<rparr>),
       open_wb = (\<lambda>n path. None), ucd = ucd_excerpt\<rparr>"

definition server_ok :: env where
  "server_ok =
     \<lparr>http_get = (\<lambda>n url. Returns \<lparr>status_code = 200, chunks = [[0x2A]], stream_error = None\<rparr>),
       open_wb = (\<lambda>n path. None), ucd = ucd_excerpt\<rparr>"

text \<open>A page with five \<open>img\<close> tags, three of them with a usable \<open>src\<close>.\<close>

definition page :: "img list" where
  "page =
     [[lit ''src'' \<mapsto> lit ''https://cdn.example/a.jpg'', lit ''alt'' \<mapsto> lit ''Red Car!! 2024''],
      [lit ''alt'' \<mapsto> lit ''no source''],
      [lit ''src'' \<mapsto> lit ''/static/logo.png''],
      [lit ''src'' \<mapsto> lit ''//cdn.example/http/b.jpg'',
       lit ''data-fullsrc'' \<mapsto> lit ''https://cdn.example/full/b.jpg''],
      [lit ''src'' \<mapsto> lit ''https://cdn.example/c.jpg'']]"

text \<open>Heights that pause once before the page has finished growing, and heights that
  grow at every read until they settle.\<close>

definition heights_pause :: "nat \<Rightarrow> int" where
  "heights_pause i = (if i < 2 then 100 else 200)"

definition heights_grow :: "nat \<Rightarrow> int" where
  "heights_grow i = (if i < 2 then 100 * (int i + 1) else 300)"

section \<open>Properties of \<open>clean_filename\<close>\<close>

lemmas clean_defs = clean_filename_def re_sub_invalid_def lower_def replace_space_def kept_def
  is_word_def is_space_def is_upper_def lower_char_def capital_def lit_def cp_def

lemma cp_values: "cp CHR '' '' = 32" "cp CHR ''_'' = 95" "cp CHR ''.'' = 46" "cp CHR ''-'' = 45"
  by (simp_all add: cp_def)

lemma lower_char_not_capital: "\<not> capital (lower_char n)"
  by (auto simp: lower_char_def capital_def)

lemma lower_char_fixed: "\<not> capital n \<Longrightarrow> lower_char n = n"
  by (simp add: lower_char_def)

lemma lower_char_not_blank: "n \<noteq> 32 \<Longrightarrow> lower_char n \<noteq> 32"
  by (auto simp: lower_char_def capital_def)

lemma lower_char_small: "n < 256 \<Longrightarrow> lower_char n < 256"
  by (auto simp: lower_char_def capital_def)

lemma lower_members:
  assumes "d \<in> set (lower u s)"
  shows "\<exists>i<length s. (s ! i < 256 \<and> d = lower_char (s ! i)) \<or>
                       (256 \<le> s ! i \<and> d \<in> set (lower_at u s i))"
  using assms by (auto simp: lower_def split: if_splits)

lemma replace_space_members: "c \<in> set (replace_space s) \<Longrightarrow> c \<noteq> 32"
  by (auto simp: replace_space_def cp_values)

lemma replace_space_small: "\<forall>c\<in>set s. c < 256 \<Longrightarrow> \<forall>c\<in>set (replace_space s). c < 256"
  by (auto simp: replace_space_def cp_values)

lemma lower_settled:
  assumes "lower_stable u \<or> (\<forall>c\<in>set s. c < 256)" and "\<forall>c\<in>set s. c \<noteq> 32"
    and "d \<in> set (lower u s)"
  shows "settled u d"
proof -
  from assms(3) obtain i where i: "i < length s"
    and d: "(s ! i < 256 \<and> d = lower_char (s ! i)) \<or> (256 \<le> s ! i \<and> d \<in> set (lower_at u s i))"
    using lower_members by blast
  from i have m: "s ! i \<in> set s" by simp
  from d show ?thesis
  proof
    assume a: "s ! i < 256 \<and> d = lower_char (s ! i)"
    with m assms(2) have "d < 256 \<and> \<not> capital d \<and> d \<noteq> 32"
      by (simp add: lower_char_small lower_char_not_capital lower_char_not_blank)
    then show ?thesis by (simp add: settled_def cp_values)
  next
    assume a: "256 \<le> s ! i \<and> d \<in> set (lower_at u s i)"
    with m assms(1) have "lower_stable u" by fastforce
    with a i show ?thesis unfolding lower_stable_def by blast
  qed
qed

lemma concat_singletons: "concat (map (\<lambda>i. [f i]) xs) = map f xs"
  by (induction xs) simp_all

lemma lower_fixed:
  assumes "\<forall>d\<in>set t. settled u d"
  shows "lower u t = t"
proof -
  have "(if t ! i < 256 then [lower_char (t ! i)] else lower_at u t i) = [t ! i]"
    if "i \<in> set [0..<length t]" for i
  proof -
    from that have i: "i < length t" by simp
    then have "settled u (t ! i)" using assms by simp
    then show ?thesis using i
      by (auto simp: settled_def lower_char_fixed)
  qed
  then have "lower u t = concat (map (\<lambda>i. [t ! i]) [0..<length t])"
    unfolding lower_def by (intro arg_cong [where f = concat] map_cong) simp_all
  also have "\<dots> = t" by (simp add: concat_singletons map_nth)
  finally show ?thesis .
qed

lemma clean_filename_members:
  assumes "c \<in> set (clean_filename u s)"
  shows "kept u c" and "c \<in> set (lower u (replace_space s))"
proof -
  from assms have m: "c \<in> set (re_sub_invalid u (lower u (replace_space s)))"
    unfolding clean_filename_def by (rule in_set_takeD)
  then show "kept u c" and "c \<in> set (lower u (replace_space s))"
    by (simp_all add: re_sub_invalid_def)
qed

lemma clean_filename_settled:
  assumes "lower_stable u \<or> (\<forall>c\<in>set s. c < 256)" and "c \<in> set (clean_filename u s)"
  shows "settled u c"
proof -
  from assms(1) have "lower_stable u \<or> (\<forall>c\<in>set (replace_space s). c < 256)"
    using replace_space_small [of s] by blast
  moreover have "\<forall>c\<in>set (replace_space s). c \<noteq> 32"
    using replace_space_members by blast
  moreover have "c \<in> set (lower u (replace_space s))"
    using assms(2) by (rule clean_filename_members)
  ultimately show ?thesis by (rule lower_settled)
qed

lemma length_clean_filename: "length (clean_filename u s) \<le> 50"
  by (simp add: clean_filename_def)

lemma settled_not_blank: "settled u d \<Longrightarrow> d \<noteq> 32"
  by (auto simp: settled_def cp_values)

lemma clean_filename_fixed:
  assumes k: "\<forall>c\<in>set t. kept u c \<and> settled u c" and l: "length t \<le> 50"
  shows "clean_filename u t = t"
proof -
  have "replace_space t = t"
    unfolding replace_space_def using k
    by (intro map_idI) (auto simp: cp_values dest: settled_not_blank)
  moreover have "lower u t = t"
    using k by (intro lower_fixed) simp
  moreover have "re_sub_invalid u t = t"
    unfolding re_sub_invalid_def using k by simp
  ultimately show ?thesis using l by (simp add: clean_filename_def)
qed

lemma lower_stable_excerpt: "lower_stable ucd_excerpt"
  by (auto simp: lower_stable_def settled_def ucd_excerpt_def capital_def cp_values split: if_splits)

text \<open>
  Claim C4, as stated: every character of a sanitised filename is a word character
  (the underscore that replaced a space is one), a dot or a hyphen. The character class
  of the source also keeps \<open>\s\<close>, and only the space U+0020 is replaced beforehand: a
  tab passes through unchanged, so the claim fails on the title made of one tab.
\<close>

theorem clean_filename_keeps_tab:
  "clean_filename ucd_excerpt [cp CHR 0x09] = [cp CHR 0x09] \<and> \<not> is_word ucd_excerpt (cp CHR 0x09) \<and>
   cp CHR 0x09 \<noteq> cp CHR ''_'' \<and> cp CHR 0x09 \<noteq> cp CHR ''.'' \<and> cp CHR 0x09 \<noteq> cp CHR ''-''"
  by (simp add: clean_defs)

text \<open>
  Claim C4, amended: for every title, over all of Unicode, every character of the
  sanitised filename is a word character, a whitespace character, a dot or a hyphen,
  and the filename has at most 50 characters. The space itself is not among them when
  \<open>lower\<close> leaves its own results alone, or when the title stays within U+00FF.
\<close>

theorem clean_filename_charset:
  "(\<forall>c\<in>set (clean_filename u title).
      is_word u c \<or> is_space c \<or> c = cp CHR ''.'' \<or> c = cp CHR ''-'') \<and>
   length (clean_filename u title) \<le> 50 \<and>
   (lower_stable u \<or> (\<forall>c\<in>set title. c < 256) \<longrightarrow>
      cp CHR '' '' \<notin> set (clean_filename u title))"
proof -
  have "cp CHR '' '' \<notin> set (clean_filename u title)"
    if "lower_stable u \<or> (\<forall>c\<in>set title. c < 256)"
    using clean_filename_settled [OF that] settled_not_blank [of u "cp CHR '' ''"]
    by (auto simp: cp_values)
  then show ?thesis
    using clean_filename_members(1) [of _ u title] length_clean_filename [of u title]
    unfolding kept_def by blast
qed

theorem clean_filename_charset_witness:
  "clean_filename ucd_excerpt (lit ''A b.c-d'' @ [0x130, 0x2102, 0x2603]) =
     lit ''a_b.c-di'' @ [0x2102] \<and>
   is_word ucd_excerpt 0x2102 \<and>
   length (clean_filename ucd_excerpt (lit ''A b.c-d'' @ [0x130, 0x2102, 0x2603])) \<le> 50 \<and>
   cp CHR '' '' \<notin> set (clean_filename ucd_excerpt (lit ''A b.c-d'' @ [0x130, 0x2102, 0x2603]))"
proof -
  have e: "clean_filename ucd_excerpt (lit ''A b.c-d'' @ [0x130, 0x2102, 0x2603]) =
     lit ''a_b.c-di'' @ [0x2102]" by (simp add: clean_defs ucd_excerpt_def)
  have w: "is_word ucd_excerpt 0x2102" by (simp add: clean_defs ucd_excerpt_def)
  from clean_filename_charset [of ucd_excerpt "lit ''A b.c-d'' @ [0x130, 0x2102, 0x2603]"]
    lower_stable_excerpt e w
  show ?thesis by simp
qed

text \<open>
  Claim C8: the title \<open>Red Car!! 2024\<close> with the extension \<open>.jpg\<close> appended, as the
  download loop forms it, is sanitised to \<open>red_car_2024.jpg\<close>, whatever the database
  says above U+00FF.
\<close>

theorem clean_filename_red_car:
  "clean_filename u (lit ''Red Car!! 2024'' @ lit ''.jpg'') = lit ''red_car_2024.jpg''"
  by (simp add: clean_defs)

text \<open>
  Claim C9, as stated: the result never contains an uppercase letter. \<open>lower\<close>
  changes only the letters that have a lowercase; the double-struck capital C U+2102
  is a word character, is uppercase for \<open>str.isupper\<close> and has none, so it is kept.
\<close>

theorem clean_filename_keeps_uppercase:
  "clean_filename ucd_excerpt [0x2102] = [0x2102] \<and> is_upper ucd_excerpt 0x2102"
  by (simp add: clean_defs ucd_excerpt_def)

text \<open>
  Claim C9, amended: when \<open>lower\<close> leaves its own results alone, as that of Python
  does, or when the input stays within U+00FF, \<open>clean_filename\<close> is idempotent, its
  result is unchanged by \<open>lower\<close> (it holds no letter that has a different
  lowercase), and none of the capital letters of U+0000 to U+00FF occurs in it.
\<close>

theorem clean_filename_idempotent_lowercase:
  assumes "lower_stable u \<or> (\<forall>c\<in>set s. c < 256)"
  shows "clean_filename u (clean_filename u s) = clean_filename u s \<and>
    lower u (clean_filename u s) = clean_filename u s \<and>
    (\<forall>c\<in>set (clean_filename u s). c < 256 \<longrightarrow> \<not> is_upper u c)"
proof -
  have st: "\<forall>c\<in>set (clean_filename u s). settled u c"
    using clean_filename_settled [OF assms] by blast
  then have "\<forall>c\<in>set (clean_filename u s). kept u c \<and> settled u c"
    using clean_filename_members(1) [of _ u s] by blast
  then have "clean_filename u (clean_filename u s) = clean_filename u s"
    using length_clean_filename [of u s] by (rule clean_filename_fixed)
  moreover have "lower u (clean_filename u s) = clean_filename u s"
    using st by (rule lower_fixed)
  moreover have "\<forall>c\<in>set (clean_filename u s). c < 256 \<longrightarrow> \<not> is_upper u c"
    using st by (auto simp: settled_def is_upper_def)
  ultimately show ?thesis by blast
qed

theorem clean_filename_idempotent_lowercase_witness:
  "clean_filename ucd_excerpt (lit ''Red Car'' @ [0x100]) = lit ''red_car'' @ [0x101] \<and>
   clean_filename ucd_excerpt (lit ''red_car'' @ [0x101]) = lit ''red_car'' @ [0x101] \<and>
   lower ucd_excerpt (lit ''red_car'' @ [0x101]) = lit ''red_car'' @ [0x101]"
proof -
  have e: "clean_filename ucd_excerpt (lit ''Red Car'' @ [0x100]) = lit ''red_car'' @ [0x101]"
    by (simp add: clean_defs ucd_excerpt_def)
  have "lower_stable ucd_excerpt \<or> (\<forall>c\<in>set (lit ''Red Car'' @ [0x100]). c < 256)"
    using lower_stable_excerpt by blast
  from clean_filename_idempotent_lowercase [OF this] show ?thesis
    unfolding e by simp
qed


section \<open>Properties of \<open>download_image\<close>\<close>

lemma foldl_append_chunks: "foldl (\<lambda>content chunk. content @ chunk) acc cs = acc @ concat cs"
  by (induction cs arbitrary: acc) simp_all

lemma write_chunks_body: "write_chunks (chunks r) = body r"
  by (simp add: write_chunks_def body_def foldl_append_chunks)

lemma attempt_fetched: "fetched (snd (attempt e url folder filename w)) = fetched w @ [url]"
  by (auto simp: attempt_def Let_def record_request_def logging_def
      sleep_request_delay_def split: get_result.splits option.splits)

lemma attempt_failed:
  assumes "\<not> attempt_succeeds e (length (fetched w)) url (path_join folder filename)"
  shows "fst (attempt e url folder filename w) = False"
    and "sleeps (snd (attempt e url folder filename w)) = Suc (sleeps w)"
  using assms
  by (auto simp: attempt_def attempt_succeeds_def Let_def record_request_def logging_def
      sleep_request_delay_def split: get_result.splits option.splits)

lemma attempt_succeeded:
  assumes "http_get e (length (fetched w)) url = Returns r" and "status_code r = 200"
    and "open_wb e (length (fetched w)) (path_join folder filename) = None"
    and "stream_error r = None"
  shows "attempt e url folder filename w =
     (True, logging (Info_downloaded (path_join folder filename))
        ((record_request url w)\<lparr>files := (files w)(path_join folder filename \<mapsto> body r)\<rparr>))"
  using assms
  by (simp add: attempt_def Let_def record_request_def write_chunks_body)

lemma download_image_with_step:
  "fst (attempt e url folder filename w) = False \<Longrightarrow>
   download_image_with (Suc k) e url folder filename w =
     download_image_with k e url folder filename (snd (attempt e url folder filename w))"
  by (simp add: case_prod_unfold)

lemma download_image_with_failures:
  "(\<forall>i<n. \<not> attempt_succeeds e (length (fetched w) + i) url (path_join folder filename)) \<Longrightarrow>
   fst (download_image_with n e url folder filename w) = False \<and>
   fetched (snd (download_image_with n e url folder filename w)) = fetched w @ replicate n url \<and>
   sleeps (snd (download_image_with n e url folder filename w)) = sleeps w + n"
proof (induction n arbitrary: w)
  case 0
  show ?case by simp
next
  case (Suc n)
  let ?a = "attempt e url folder filename w"
  from Suc.prems have f0: "\<not> attempt_succeeds e (length (fetched w)) url (path_join folder filename)"
    by (metis add.right_neutral zero_less_Suc)
  note a = attempt_failed [OF f0] attempt_fetched [of e url folder filename w]
  have len: "length (fetched (snd ?a)) + i = length (fetched w) + Suc i" for i
    by (simp add: a(3))
  have rest: "\<forall>i<n. \<not> attempt_succeeds e (length (fetched (snd ?a)) + i) url (path_join folder filename)"
    using Suc.prems unfolding len by auto
  show ?case unfolding download_image_with_step [OF a(1)] using Suc.IH [OF rest] a(2,3)
    by (simp add: replicate_app_Cons_same)
qed

lemma download_image_with_success_after:
  "(\<forall>i<j. \<not> attempt_succeeds e (length (fetched w) + i) url (path_join folder filename)) \<Longrightarrow>
   http_get e (length (fetched w) + j) url = Returns r \<Longrightarrow> status_code r = 200 \<Longrightarrow>
   open_wb e (length (fetched w) + j) (path_join folder filename) = None \<Longrightarrow>
   stream_error r = None \<Longrightarrow> j < n \<Longrightarrow>
   fst (download_image_with n e url folder filename w) = True \<and>
   fetched (snd (download_image_with n e url folder filename w)) = fetched w @ replicate (Suc j) url \<and>
   files (snd (download_image_with n e url folder filename w)) (path_join folder filename) = Some (body r) \<and>
   sleeps (snd (download_image_with n e url folder filename w)) = sleeps w + j"
proof (induction j arbitrary: w n)
  case 0
  from \<open>0 < n\<close> obtain m where n: "n = Suc m" by (cases n) auto
  from 0 have "attempt e url folder filename w =
     (True, logging (Info_downloaded (path_join folder filename))
        ((record_request url w)\<lparr>files := (files w)(path_join folder filename \<mapsto> body r)\<rparr>))"
    by (intro attempt_succeeded) simp_all
  then show ?case
    by (simp add: n logging_def record_request_def)
next
  case (Suc j)
  from \<open>Suc j < n\<close> obtain m where n: "n = Suc m" and m: "j < m" by (cases n) auto
  let ?a = "attempt e url folder filename w"
  from Suc.prems(1) have f0: "\<not> attempt_succeeds e (length (fetched w)) url (path_join folder filename)"
    by (metis add.right_neutral zero_less_Suc)
  note a = attempt_failed [OF f0] attempt_fetched [of e url folder filename w]
  have len: "length (fetched (snd ?a)) + i = length (fetched w) + Suc i" for i
    by (simp add: a(3))
  have rest: "\<forall>i<j. \<not> attempt_succeeds e (length (fetched (snd ?a)) + i) url (path_join folder filename)"
    using Suc.prems(1) unfolding len by auto
  have "fst (download_image_with m e url folder filename (snd ?a)) = True \<and>
   fetched (snd (download_image_with m e url folder filename (snd ?a))) =
     fetched (snd ?a) @ replicate (Suc j) url \<and>
   files (snd (download_image_with m e url folder filename (snd ?a))) (path_join folder filename) =
     Some (body r) \<and>
   sleeps (snd (download_image_with m e url folder filename (snd ?a))) = sleeps (snd ?a) + j"
    using rest Suc.prems(2-5) m unfolding len [symmetric] by (rule Suc.IH)
  then show ?case unfolding n download_image_with_step [OF a(1)] using a(2,3)
    by (simp add: replicate_app_Cons_same)
qed

lemma failure_classes_fail:
  "bad_status e n url \<or> transport_failure e n url \<Longrightarrow> \<not> attempt_succeeds e n url file_path"
  by (auto simp: bad_status_def transport_failure_def attempt_succeeds_def split: get_result.splits)

text \<open>
  Claim C1: for every bound of at least 1, a call whose every attempt fails (the status
  is not 200, the request raises, or anything else raises inside the attempt) sends
  exactly that many requests, pauses after each of them, and returns \<open>False\<close>.
  \<open>download_image\<close> is the instance with the bound \<open>RETRY_ATTEMPTS\<close>.
\<close>

theorem download_image_all_attempts_fail:
  assumes "1 \<le> max_attempts"
    and "\<forall>i<max_attempts.
           \<not> attempt_succeeds e (length (fetched w) + i) url (path_join folder filename)"
  shows "fst (download_image_with max_attempts e url folder filename w) = False \<and>
    fetched (snd (download_image_with max_attempts e url folder filename w)) =
      fetched w @ replicate max_attempts url \<and>
    sleeps (snd (download_image_with max_attempts e url folder filename w)) =
      sleeps w + max_attempts"
  using assms(2) by (rule download_image_with_failures)

theorem download_image_all_attempts_fail_witness:
  "fst (download_image server_404 (lit ''http://x/a.jpg'') DOWNLOAD_FOLDER (lit ''a.jpg'') fresh) = False \<and>
   fetched (snd (download_image server_404 (lit ''http://x/a.jpg'') DOWNLOAD_FOLDER (lit ''a.jpg'') fresh)) =
     [lit ''http://x/a.jpg'', lit ''http://x/a.jpg'', lit ''http://x/a.jpg''] \<and>
   sleeps (snd (download_image server_404 (lit ''http://x/a.jpg'') DOWNLOAD_FOLDER (lit ''a.jpg'') fresh)) = 3"
proof -
  have h: "\<forall>i<3. \<not> attempt_succeeds server_404 (length (fetched fresh) + i) (lit ''http://x/a.jpg'')
             (path_join DOWNLOAD_FOLDER (lit ''a.jpg''))"
    by (simp add: attempt_succeeds_def server_404_def)
  have b: "(1::nat) \<le> 3" by simp
  from download_image_all_attempts_fail [OF b h] show ?thesis
    by (simp add: download_image_def RETRY_ATTEMPTS_def fresh_def numeral_3_eq_3)
qed

text \<open>
  Claim C2, as stated, asks of attempt \<open>k\<close> only that it returns the success status.
  The body is written inside the \<open>try\<close>, after the status has been read: when the
  first answer is 200 and its stream breaks, the first attempt has returned the success
  status, and the call goes on to its third attempt and returns \<open>False\<close>.
\<close>

theorem download_image_status_200_broken_body:
  "http_get server_broken_stream (length (fetched fresh)) (lit ''http://x/a.jpg'') =
     Returns \<lparr>status_code = 200, chunks = [[0xFF, 0xD8]],
              stream_error = Some (lit ''Connection broken'')\<rparr> \<and>
   fst (download_image server_broken_stream (lit ''http://x/a.jpg'') DOWNLOAD_FOLDER (lit ''a.jpg'') fresh) =
     False \<and>
   length (fetched (snd (download_image server_broken_stream (lit ''http://x/a.jpg'') DOWNLOAD_FOLDER
     (lit ''a.jpg'') fresh))) = 3"
  by (simp add: download_image_def RETRY_ATTEMPTS_def numeral_3_eq_3 attempt_def Let_def
      server_broken_stream_def fresh_def record_request_def logging_def sleep_request_delay_def)

text \<open>
  Claim C2, amended: when the first \<open>k - 1\<close> attempts fail and attempt \<open>k\<close>, within the
  bound, returns status 200 and nothing raises while its body is written, the call
  sends exactly \<open>k\<close> requests, returns \<open>True\<close>, and the file at the destination holds
  the body of the \<open>k\<close>-th response. The instance with three attempts and the answers
  500, 500, 200 follows it.
\<close>

theorem download_image_succeeds_on_attempt:
  assumes "1 \<le> k" and "k \<le> max_attempts"
    and "\<forall>i<k - 1. \<not> attempt_succeeds e (length (fetched w) + i) url (path_join folder filename)"
    and "attempt_succeeds e (length (fetched w) + (k - 1)) url (path_join folder filename)"
    and "http_get e (length (fetched w) + (k - 1)) url = Returns r"
  shows "fst (download_image_with max_attempts e url folder filename w) = True \<and>
    fetched (snd (download_image_with max_attempts e url folder filename w)) =
      fetched w @ replicate k url \<and>
    files (snd (download_image_with max_attempts e url folder filename w))
      (path_join folder filename) = Some (body r)"
proof -
  from assms(1,2) have lt: "k - 1 < max_attempts" and k: "Suc (k - 1) = k" by simp_all
  from assms(4,5) have ok: "status_code r = 200"
    "open_wb e (length (fetched w) + (k - 1)) (path_join folder filename) = None"
    "stream_error r = None"
    by (simp_all add: attempt_succeeds_def)
  from download_image_with_success_after [OF assms(3) assms(5) ok lt] show ?thesis
    unfolding k by simp
qed

theorem download_image_succeeds_on_attempt_witness:
  "fst (download_image server_500_500_200 (lit ''http://x/a.jpg'') DOWNLOAD_FOLDER (lit ''a.jpg'') fresh) = True \<and>
   fetched (snd (download_image server_500_500_200 (lit ''http://x/a.jpg'') DOWNLOAD_FOLDER (lit ''a.jpg'') fresh)) =
     [lit ''http://x/a.jpg'', lit ''http://x/a.jpg'', lit ''http://x/a.jpg''] \<and>
   files (snd (download_image server_500_500_200 (lit ''http://x/a.jpg'') DOWNLOAD_FOLDER (lit ''a.jpg'') fresh))
     (lit ''lummi_images/a.jpg'') = Some [0xFF, 0xD8, 0xFF]"
proof -
  let ?r = "\<lparr>status_code = 200, chunks = [[0xFF, 0xD8], [0xFF :: 8 word]], stream_error = None\<rparr>"
  have h: "\<forall>i<3 - 1. \<not> attempt_succeeds server_500_500_200 (length (fetched fresh) + i)
             (lit ''http://x/a.jpg'') (path_join DOWNLOAD_FOLDER (lit ''a.jpg''))"
    by (simp add: attempt_succeeds_def server_500_500_200_def fresh_def)
  have g: "http_get server_500_500_200 (length (fetched fresh) + (3 - 1)) (lit ''http://x/a.jpg'') = Returns ?r"
    by (simp add: server_500_500_200_def fresh_def)
  have s: "attempt_succeeds server_500_500_200 (length (fetched fresh) + (3 - 1))
             (lit ''http://x/a.jpg'') (path_join DOWNLOAD_FOLDER (lit ''a.jpg''))"
    by (simp add: attempt_succeeds_def server_500_500_200_def fresh_def)
  have p: "path_join DOWNLOAD_FOLDER (lit ''a.jpg'') = lit ''lummi_images/a.jpg''"
    by (simp add: path_join_def DOWNLOAD_FOLDER_def lit_def cp_def)
  have b: "(1::nat) \<le> 3" "(3::nat) \<le> 3" by simp_all
  from download_image_succeeds_on_attempt [OF b h s g] show ?thesis
    by (simp add: download_image_def RETRY_ATTEMPTS_def fresh_def numeral_3_eq_3 p body_def)
qed

lemma attempt_files:
  "files (snd (attempt e url folder filename w)) (path_join folder filename) \<noteq> None \<longleftrightarrow>
   files w (path_join folder filename) \<noteq> None \<or>
   opens_destination e (length (fetched w)) url (path_join folder filename)"
  by (auto simp: attempt_def opens_destination_def Let_def record_request_def logging_def
      sleep_request_delay_def split: get_result.splits option.splits)

lemma attempt_returned_opens:
  "fst (attempt e url folder filename w) \<Longrightarrow>
   opens_destination e (length (fetched w)) url (path_join folder filename)"
  by (auto simp: attempt_def opens_destination_def Let_def split: get_result.splits option.splits if_splits)

lemma attempt_unopened_files:
  "\<not> opens_destination e (length (fetched w)) url (path_join folder filename) \<Longrightarrow>
   files (snd (attempt e url folder filename w)) = files w"
  by (auto simp: attempt_def opens_destination_def Let_def record_request_def logging_def
      sleep_request_delay_def split: get_result.splits option.splits)

lemma download_image_with_files:
  "files (snd (download_image_with n e url folder filename w)) (path_join folder filename) \<noteq> None \<longleftrightarrow>
   files w (path_join folder filename) \<noteq> None \<or>
   (\<exists>i<n. opens_destination e (length (fetched w) + i) url (path_join folder filename))"
proof (induction n arbitrary: w)
  case 0
  show ?case by simp
next
  case (Suc n)
  let ?a = "attempt e url folder filename w"
  let ?p = "path_join folder filename"
  show ?case
  proof (cases "fst ?a")
    case True
    then have r: "download_image_with (Suc n) e url folder filename w = (True, snd ?a)"
      by (simp add: case_prod_unfold)
    from True have o: "opens_destination e (length (fetched w)) url ?p"
      by (rule attempt_returned_opens)
    then have f: "files (snd ?a) ?p \<noteq> None"
      using attempt_files [of e url folder filename w] by blast
    have "\<exists>i<Suc n. opens_destination e (length (fetched w) + i) url ?p"
      using o by (intro exI [of _ 0]) simp
    with f show ?thesis unfolding r by simp
  next
    case False
    then have step: "download_image_with (Suc n) e url folder filename w =
        download_image_with n e url folder filename (snd ?a)"
      by (intro download_image_with_step) simp
    have len: "length (fetched (snd ?a)) + i = length (fetched w) + Suc i" for i
      by (simp add: attempt_fetched)
    show ?thesis
      unfolding step Suc.IH attempt_files len Ex_less_Suc2 by auto
  qed
qed

lemma download_image_with_returned_file:
  "fst (download_image_with n e url folder filename w) \<Longrightarrow>
   files (snd (download_image_with n e url folder filename w)) (path_join folder filename) \<noteq> None"
proof (induction n arbitrary: w)
  case 0
  then show ?case by simp
next
  case (Suc n)
  let ?a = "attempt e url folder filename w"
  show ?case
  proof (cases "fst ?a")
    case True
    then have r: "download_image_with (Suc n) e url folder filename w = (True, snd ?a)"
      by (simp add: case_prod_unfold)
    from True have "opens_destination e (length (fetched w)) url (path_join folder filename)"
      by (rule attempt_returned_opens)
    then have "files (snd ?a) (path_join folder filename) \<noteq> None"
      using attempt_files [of e url folder filename w] by blast
    then show ?thesis unfolding r by simp
  next
    case False
    then have step: "download_image_with (Suc n) e url folder filename w =
        download_image_with n e url folder filename (snd ?a)"
      by (intro download_image_with_step) simp
    from Suc.prems show ?thesis unfolding step by (rule Suc.IH)
  qed
qed

text \<open>
  Claim C3, as stated: after a call, a file exists at the destination if and only if the
  call returned \<open>True\<close>. The source writes straight into the destination, with no
  temporary file, and catches what is raised while writing: a first answer of 200 whose
  body breaks after one chunk, followed by two timeouts, ends in \<open>False\<close> with the chunk
  on disk, where no file was before.
\<close>

theorem download_image_partial_file_counterexample:
  "fst (download_image server_broken_stream (lit ''http://x/a.jpg'') DOWNLOAD_FOLDER (lit ''a.jpg'') fresh) = False \<and>
   files fresh (lit ''lummi_images/a.jpg'') = None \<and>
   files (snd (download_image server_broken_stream (lit ''http://x/a.jpg'') DOWNLOAD_FOLDER (lit ''a.jpg'') fresh))
     (lit ''lummi_images/a.jpg'') = Some [0xFF, 0xD8]"
  by (simp add: download_image_def RETRY_ATTEMPTS_def numeral_3_eq_3 attempt_def Let_def
      server_broken_stream_def fresh_def path_join_def DOWNLOAD_FOLDER_def record_request_def
      logging_def sleep_request_delay_def write_chunks_def lit_def cp_def)

text \<open>
  Claim C3, amended: when a call returns \<open>True\<close>, a file exists at the destination.
  Whatever the call returns, a file exists at the destination afterwards exactly when
  one existed there before the call or some attempt received status 200 and opened the
  destination for writing; so after \<open>False\<close> no file is there unless it was there
  before or such an attempt left one, possibly partial.
\<close>

theorem download_image_file_exists:
  "(fst (download_image_with max_attempts e url folder filename w) \<longrightarrow>
      files (snd (download_image_with max_attempts e url folder filename w))
        (path_join folder filename) \<noteq> None) \<and>
   (files (snd (download_image_with max_attempts e url folder filename w))
        (path_join folder filename) \<noteq> None \<longleftrightarrow>
      files w (path_join folder filename) \<noteq> None \<or>
      (\<exists>i<max_attempts.
         opens_destination e (length (fetched w) + i) url (path_join folder filename)))"
  using download_image_with_returned_file [of max_attempts e url folder filename w]
    download_image_with_files [of max_attempts e url folder filename w]
  by blast

theorem download_image_file_exists_witness:
  "\<not> fst (download_image server_404 (lit ''http://x/a.jpg'') DOWNLOAD_FOLDER (lit ''a.jpg'') fresh) \<and>
   files (snd (download_image server_404 (lit ''http://x/a.jpg'') DOWNLOAD_FOLDER (lit ''a.jpg'') fresh))
     (path_join DOWNLOAD_FOLDER (lit ''a.jpg'')) = None"
proof -
  have n: "\<not> (\<exists>i<3. opens_destination server_404 (length (fetched fresh) + i) (lit ''http://x/a.jpg'')
              (path_join DOWNLOAD_FOLDER (lit ''a.jpg'')))"
    by (simp add: opens_destination_def server_404_def)
  have f: "files fresh (path_join DOWNLOAD_FOLDER (lit ''a.jpg'')) = None"
    by (simp add: fresh_def)
  have r: "\<not> fst (download_image server_404 (lit ''http://x/a.jpg'') DOWNLOAD_FOLDER (lit ''a.jpg'') fresh)"
    by (simp add: download_image_def RETRY_ATTEMPTS_def numeral_3_eq_3 attempt_def Let_def
        server_404_def fresh_def record_request_def logging_def sleep_request_delay_def)
  from download_image_file_exists [of 3 server_404 "lit ''http://x/a.jpg''" DOWNLOAD_FOLDER "lit ''a.jpg''" fresh]
    n f r show ?thesis
    by (simp add: download_image_def RETRY_ATTEMPTS_def)
qed

text \<open>
  Claim C6: the retry does not tell failure classes apart. An attempt that fails, for
  whatever reason, falls through to the pause and the loop goes on with one attempt
  fewer. When the failure is a status other than 200 or a request that raises, the
  worlds after the attempt are the same but for the record written to the log: one more
  request, one more pause, the files untouched.
\<close>

theorem failure_classes_retry_alike:
  assumes "\<not> attempt_succeeds e (length (fetched w)) url (path_join folder filename)"
  shows "fst (attempt e url folder filename w) = False \<and>
    sleeps (snd (attempt e url folder filename w)) = Suc (sleeps w) \<and>
    fetched (snd (attempt e url folder filename w)) = fetched w @ [url] \<and>
    download_image_with (Suc k) e url folder filename w =
      download_image_with k e url folder filename (snd (attempt e url folder filename w)) \<and>
    (bad_status e (length (fetched w)) url \<or> transport_failure e (length (fetched w)) url \<longrightarrow>
      (\<exists>entry. snd (attempt e url folder filename w) =
         sleep_request_delay (logging entry (record_request url w))))"
proof -
  note a = attempt_failed [OF assms]
  have "\<exists>entry. snd (attempt e url folder filename w) =
         sleep_request_delay (logging entry (record_request url w))"
    if "bad_status e (length (fetched w)) url \<or> transport_failure e (length (fetched w)) url"
    using that
    by (auto simp: bad_status_def transport_failure_def attempt_def Let_def split: get_result.splits)
  then show ?thesis
    using a attempt_fetched [of e url folder filename w] download_image_with_step [OF a(1), of k]
    by blast
qed

theorem failure_classes_retry_alike_witness:
  "(\<exists>entry. snd (attempt server_404 (lit ''u'') (lit ''d'') (lit ''f'') fresh) =
      sleep_request_delay (logging entry (record_request (lit ''u'') fresh))) \<and>
   (\<exists>entry. snd (attempt server_timeout (lit ''u'') (lit ''d'') (lit ''f'') fresh) =
      sleep_request_delay (logging entry (record_request (lit ''u'') fresh))) \<and>
   download_image_with 1 server_404 (lit ''u'') (lit ''d'') (lit ''f'') fresh =
     (False, snd (attempt server_404 (lit ''u'') (lit ''d'') (lit ''f'') fresh)) \<and>
   download_image_with 1 server_timeout (lit ''u'') (lit ''d'') (lit ''f'') fresh =
     (False, snd (attempt server_timeout (lit ''u'') (lit ''d'') (lit ''f'') fresh))"
proof -
  have b: "bad_status server_404 (length (fetched fresh)) (lit ''u'')"
    by (simp add: bad_status_def server_404_def)
  have t: "transport_failure server_timeout (length (fetched fresh)) (lit ''u'')"
    by (simp add: transport_failure_def server_timeout_def)
  have fb: "\<not> attempt_succeeds server_404 (length (fetched fresh)) (lit ''u'') (path_join (lit ''d'') (lit ''f''))"
    by (simp add: attempt_succeeds_def server_404_def)
  have ft: "\<not> attempt_succeeds server_timeout (length (fetched fresh)) (lit ''u'') (path_join (lit ''d'') (lit ''f''))"
    by (simp add: attempt_succeeds_def server_timeout_def)
  from failure_classes_retry_alike [OF fb, of 0] failure_classes_retry_alike [OF ft, of 0] b t
  show ?thesis by simp
qed



section \<open>Properties of the scroll loop\<close>

lemma scroll_loop_stops:
  "c < n \<Longrightarrow> (\<forall>i. c < i \<and> i < n \<longrightarrow> heights i \<noteq> heights (i - 1)) \<Longrightarrow>
   heights n = heights (n - 1) \<Longrightarrow> scroll_loop heights (heights c) c = Some n"
proof (induction "n - c" arbitrary: c)
  case 0
  then show ?case by simp
next
  case (Suc d)
  show ?case
  proof (cases "Suc c = n")
    case True
    with Suc.prems(3) have "heights (Suc c) = heights c" by auto
    then show ?thesis using True by (subst scroll_loop.simps) simp
  next
    case False
    with Suc.prems(1) have lt: "Suc c < n" by simp
    with Suc.prems(2) have ne: "heights (Suc c) \<noteq> heights c" by fastforce
    have d: "d = n - Suc c" using Suc.hyps(2) by simp
    have rest: "\<forall>i. Suc c < i \<and> i < n \<longrightarrow> heights i \<noteq> heights (i - 1)"
      using Suc.prems(2) by auto
    have "scroll_loop heights (heights (Suc c)) (Suc c) = Some n"
      using d lt rest Suc.prems(3) by (rule Suc.hyps(1))
    then show ?thesis using ne by (subst scroll_loop.simps) simp
  qed
qed

text \<open>
  Claim C5, as stated: a height sequence that becomes constant after \<open>n\<close> reads makes
  the loop run exactly \<open>n\<close> times. The loop compares each read with the one before
  it only, so it stops at the first pause of the page. The heights 100, 100, 200,
  200, ... become constant after 3 reads and no sooner, and the loop runs once.
\<close>

theorem scroller_early_pause:
  "becomes_constant_after heights_pause 3 \<and> \<not> becomes_constant_after heights_pause 2 \<and>
   \<not> becomes_constant_after heights_pause 1 \<and> scroller heights_pause = Some 1"
proof -
  have "scroller heights_pause = Some 1"
    unfolding scroller_def by (subst scroll_loop.simps) (simp add: heights_pause_def)
  moreover have "becomes_constant_after heights_pause 3"
    by (simp add: becomes_constant_after_def heights_pause_def)
  moreover have "\<not> becomes_constant_after heights_pause 2"
    by (auto simp: becomes_constant_after_def heights_pause_def intro!: exI [of _ 2])
  moreover have "\<not> becomes_constant_after heights_pause 1"
    by (auto simp: becomes_constant_after_def heights_pause_def intro!: exI [of _ 2])
  ultimately show ?thesis by blast
qed

text \<open>
  Claim C5, amended: for a height sequence that becomes constant after \<open>n\<close> reads and
  whose reads before that each differ from the read before them, the loop terminates
  after exactly \<open>n\<close> passes, when the new read equals the last one.
\<close>

theorem scroller_cycles:
  assumes "becomes_constant_after heights n"
    and "\<forall>i. 0 < i \<and> i < n \<longrightarrow> heights i \<noteq> heights (i - 1)"
  shows "scroller heights = Some n"
proof -
  from assms(1) have n: "0 < n" and e: "heights n = heights (n - 1)"
    by (simp_all add: becomes_constant_after_def)
  from n assms(2) e show ?thesis unfolding scroller_def by (rule scroll_loop_stops)
qed

theorem scroller_cycles_witness: "scroller heights_grow = Some 3"
proof -
  have c: "becomes_constant_after heights_grow 3"
    by (simp add: becomes_constant_after_def heights_grow_def)
  have d: "\<forall>i. 0 < i \<and> i < 3 \<longrightarrow> heights_grow i \<noteq> heights_grow (i - 1)"
    by (auto simp: heights_grow_def)
  from scroller_cycles [OF c d] show ?thesis .
qed

section \<open>Properties of the download loop\<close>

lemma download_loop_full:
  "max_images \<le> downloaded \<Longrightarrow> download_loop e tags max_images downloaded w = (downloaded, w)"
  by (cases tags) simp_all

lemma valid_src_iff:
  "valid_src img \<longleftrightarrow> (\<exists>src p q. img (lit ''src'') = Some src \<and> src = p @ lit ''http'' @ q)"
  by (auto simp: valid_src_def sublist_def lit_def split: option.splits)

lemma download_loop_skip:
  "\<not> valid_src img \<Longrightarrow>
   download_loop e (img # rest) max_images downloaded w = download_loop e rest max_images downloaded w"
  by (auto simp: valid_src_def download_loop_full split: option.splits)

lemma download_loop_fetch:
  assumes "valid_src img" and "downloaded < max_images"
  shows "download_loop e (img # rest) max_images downloaded w =
     (let r = download_image e (full_src img) DOWNLOAD_FOLDER
                (clean_filename (ucd e)
                  (or_else (img (lit ''alt'')) (lit ''image_'' @ str_int downloaded) @ lit ''.jpg'')) w
      in download_loop e rest max_images (if fst r then downloaded + 1 else downloaded) (snd r))"
  using assms
  by (auto simp: valid_src_def full_src_def Let_def case_prod_unfold split: option.splits)

text \<open>One rule for all proofs about the loop: the empty list, the break, a skipped tag
  and a fetched tag.\<close>

lemma download_loop_induct [case_names Nil Break Skip Fetch]:
  assumes "\<And>max_images downloaded w. P [] max_images downloaded w"
    and "\<And>img rest max_images downloaded w. max_images \<le> downloaded \<Longrightarrow>
           P (img # rest) max_images downloaded w"
    and "\<And>img rest max_images downloaded w. \<not> valid_src img \<Longrightarrow> downloaded < max_images \<Longrightarrow>
           P rest max_images downloaded w \<Longrightarrow> P (img # rest) max_images downloaded w"
    and "\<And>img rest max_images downloaded w r. valid_src img \<Longrightarrow> downloaded < max_images \<Longrightarrow>
           r = download_image e (full_src img) DOWNLOAD_FOLDER
                (clean_filename (ucd e)
                  (or_else (img (lit ''alt'')) (lit ''image_'' @ str_int downloaded) @ lit ''.jpg'')) w \<Longrightarrow>
           download_loop e (img # rest) max_images downloaded w =
             download_loop e rest max_images (if fst r then downloaded + 1 else downloaded) (snd r) \<Longrightarrow>
           P rest max_images (if fst r then downloaded + 1 else downloaded) (snd r) \<Longrightarrow>
           P (img # rest) max_images downloaded w"
  shows "P tags max_images downloaded w"
proof (induction tags arbitrary: downloaded w)
  case Nil
  show ?case by (rule assms(1))
next
  case (Cons img rest)
  consider "max_images \<le> downloaded" | "\<not> valid_src img" "downloaded < max_images"
    | "valid_src img" "downloaded < max_images" by fastforce
  then show ?case
  proof cases
    case 1
    then show ?thesis by (rule assms(2))
  next
    case 2
    then show ?thesis using Cons.IH by (rule assms(3))
  next
    case 3
    then show ?thesis using refl download_loop_fetch [OF 3, unfolded Let_def] Cons.IH
      by (rule assms(4))
  qed
qed


lemma attempt_downloads_logged:
  "downloads_logged (snd (attempt e url folder filename w)) =
   downloads_logged w + (if fst (attempt e url folder filename w) then 1 else 0)"
  by (auto simp: attempt_def Let_def record_request_def logging_def downloads_logged_def
      sleep_request_delay_def split: get_result.splits option.splits)


lemma download_image_with_Suc:
  "download_image_with (Suc n) e url folder filename w =
     (if fst (attempt e url folder filename w) then (True, snd (attempt e url folder filename w))
      else download_image_with n e url folder filename (snd (attempt e url folder filename w)))"
  by (simp add: case_prod_unfold)



lemma download_image_with_requests:
  "\<exists>k\<le>n. (0 < n \<longrightarrow> 1 \<le> k) \<and>
     fetched (snd (download_image_with n e url folder filename w)) = fetched w @ replicate k url \<and>
     downloads_logged (snd (download_image_with n e url folder filename w)) =
       downloads_logged w + (if fst (download_image_with n e url folder filename w) then 1 else 0)"
proof (induction n arbitrary: w)
  case 0
  show ?case by simp
next
  case (Suc n)
  let ?a = "attempt e url folder filename w"
  show ?case
  proof (cases "fst ?a")
    case True
    then have "fetched (snd (download_image_with (Suc n) e url folder filename w)) =
        fetched w @ replicate 1 url \<and>
      downloads_logged (snd (download_image_with (Suc n) e url folder filename w)) =
        downloads_logged w + (if fst (download_image_with (Suc n) e url folder filename w) then 1 else 0)"
      by (simp add: download_image_with_Suc attempt_fetched attempt_downloads_logged
          del: download_image_with.simps(2))
    then show ?thesis by (intro exI [of _ 1]) simp
  next
    case False
    from Suc.IH [of "snd ?a"] obtain k where k: "k \<le> n"
      and f: "fetched (snd (download_image_with n e url folder filename (snd ?a))) =
                fetched (snd ?a) @ replicate k url"
      and l: "downloads_logged (snd (download_image_with n e url folder filename (snd ?a))) =
                downloads_logged (snd ?a) +
                (if fst (download_image_with n e url folder filename (snd ?a)) then 1 else 0)"
      by blast
    have "fetched (snd (download_image_with (Suc n) e url folder filename w)) =
        fetched w @ replicate (Suc k) url \<and>
      downloads_logged (snd (download_image_with (Suc n) e url folder filename w)) =
        downloads_logged w + (if fst (download_image_with (Suc n) e url folder filename w) then 1 else 0)"
      using False f l
      by (simp add: download_image_with_Suc attempt_fetched attempt_downloads_logged
          replicate_app_Cons_same del: download_image_with.simps(2))
    with k show ?thesis by (intro exI [of _ "Suc k"]) simp
  qed
qed















lemma download_image_with_fetched:
  "set (fetched (snd (download_image_with n e url folder filename w))) \<subseteq> insert url (set (fetched w))"
  using download_image_with_requests [of n e url folder filename w] by auto

lemma download_loop_fetched:
  "set (fetched (snd (download_loop e tags max_images downloaded w))) \<subseteq>
   set (fetched w) \<union> full_src ` {img \<in> set tags. valid_src img}"
proof (induction tags max_images downloaded w rule: download_loop_induct [of _ e])
  case (Nil max_images downloaded w)
  show ?case by simp
next
  case (Break img rest max_images downloaded w)
  then show ?case by (simp only: download_loop_full) simp
next
  case (Skip img rest max_images downloaded w)
  then show ?case unfolding download_loop_skip [OF Skip.hyps(1)] by auto
next
  case (Fetch img rest max_images downloaded w r)
  have r: "set (fetched (snd r)) \<subseteq> insert (full_src img) (set (fetched w))"
    unfolding Fetch.hyps(3) download_image_def by (rule download_image_with_fetched)
  have here: "full_src img \<in> full_src ` {t \<in> set (img # rest). valid_src t}"
    using Fetch.hyps(1) by simp
  have mono: "full_src ` {t \<in> set rest. valid_src t} \<subseteq>
      full_src ` {t \<in> set (img # rest). valid_src t}"
    by auto
  show ?case unfolding Fetch.hyps(4) using Fetch.IH r here mono by blast
qed

lemma download_loop_bounds:
  "downloaded \<le> fst (download_loop e tags max_images downloaded w) \<and>
   fst (download_loop e tags max_images downloaded w) \<le> max downloaded max_images"
proof (induction tags max_images downloaded w rule: download_loop_induct [of _ e])
  case (Fetch img rest max_images downloaded w r)
  then show ?case unfolding Fetch.hyps(4) by (auto split: if_splits)
qed (simp_all add: download_loop_full download_loop_skip del: download_loop.simps(2))

lemma download_loop_append:
  "download_loop e (xs @ ys) max_images downloaded w =
   download_loop e ys max_images (fst (download_loop e xs max_images downloaded w))
     (snd (download_loop e xs max_images downloaded w))"
proof (induction xs max_images downloaded w rule: download_loop_induct [of _ e])
  case (Nil max_images downloaded w)
  show ?case by simp
next
  case (Break img rest max_images downloaded w)
  then show ?case by (simp only: append_Cons download_loop_full fst_conv snd_conv)
next
  case (Skip img rest max_images downloaded w)
  show ?case unfolding append_Cons download_loop_skip [OF Skip.hyps(1)] by (rule Skip.IH)
next
  case (Fetch img rest max_images downloaded w r)
  from Fetch.hyps(1,2) have "download_loop e (img # rest @ ys) max_images downloaded w =
      download_loop e (rest @ ys) max_images (if fst r then downloaded + 1 else downloaded) (snd r)"
    unfolding Fetch.hyps(3) by (simp add: download_loop_fetch Let_def del: download_loop.simps(2))
  then show ?case unfolding append_Cons Fetch.hyps(4) using Fetch.IH by simp
qed






lemmas src_defs = valid_src_def full_src_def or_else_def page_def lit_def cp_def sublist_code








text \<open>
  Claim C10, as stated, says that the count never exceeds the requested maximum. The
  maximum is the integer the user typed, unchecked: with \<open>-1\<close> the loop breaks at its
  first test and the count, 0, is above the maximum.
\<close>

theorem download_loop_negative_maximum:
  "fst (download_loop server_ok page (- 1) 0 fresh) = 0 \<and>
   \<not> fst (download_loop server_ok page (- 1) 0 fresh) \<le> - 1"
  by (simp add: page_def)

text \<open>
  Claim C10, amended: a tag passes the filter exactly when its \<open>src\<close> is present and
  contains \<open>http\<close> somewhere; every request the loop sends is for the URL of a tag
  that passes; a tag that does not pass changes nothing, neither the requests nor the
  count; and the count never exceeds the larger of 0 and the requested maximum, so
  never the maximum itself when that is not negative. By \<open>download_loop_append\<close> the
  state after any number of passes is the result of the loop on the tags seen so far,
  so the bound holds at every point of the loop.
\<close>

theorem download_loop_filter_and_bound:
  "(valid_src img \<longleftrightarrow> (\<exists>src p q. img (lit ''src'') = Some src \<and> src = p @ lit ''http'' @ q)) \<and>
   set (fetched (snd (download_loop e tags max_images downloaded w))) \<subseteq>
     set (fetched w) \<union> full_src ` {t \<in> set tags. valid_src t} \<and>
   (\<not> valid_src img \<longrightarrow>
      download_loop e (img # rest) max_images downloaded w =
      download_loop e rest max_images downloaded w) \<and>
   fst (download_loop e tags max_images 0 w) \<le> max 0 max_images \<and>
   (0 \<le> max_images \<longrightarrow> fst (download_loop e tags max_images 0 w) \<le> max_images)"
proof -
  have b: "fst (download_loop e tags max_images 0 w) \<le> max 0 max_images"
    using download_loop_bounds [of 0 e tags max_images w] by simp
  then have "0 \<le> max_images \<longrightarrow> fst (download_loop e tags max_images 0 w) \<le> max_images"
    by (auto simp: max_def split: if_splits)
  with b show ?thesis
    using valid_src_iff [of img] download_loop_fetched [of e tags max_images downloaded w]
      download_loop_skip [of img e rest max_images downloaded w]
    by blast
qed

theorem download_loop_filter_and_bound_witness:
  "\<not> valid_src [lit ''src'' \<mapsto> lit ''/static/logo.png''] \<and>
   valid_src [lit ''src'' \<mapsto> lit ''//cdn.example/http/b.jpg''] \<and>
   download_loop server_ok ([lit ''src'' \<mapsto> lit ''/static/logo.png''] # page) 2 0 fresh =
     download_loop server_ok page 2 0 fresh \<and>
   fst (download_loop server_ok page 2 0 fresh) \<le> 2 \<and>
   set (fetched (snd (download_loop server_ok page 2 0 fresh))) \<subseteq>
     set (fetched fresh) \<union> full_src ` {t \<in> set page. valid_src t}"
proof -
  have n: "\<not> valid_src [lit ''src'' \<mapsto> lit ''/static/logo.png'']" by (simp add: src_defs)
  have y: "valid_src [lit ''src'' \<mapsto> lit ''//cdn.example/http/b.jpg'']" by (simp add: src_defs)
  from download_loop_filter_and_bound
    [of "[lit ''src'' \<mapsto> lit ''/static/logo.png'']" server_ok page 2 0 fresh page] n y
  show ?thesis by simp
qed


end
